theory Spec2Isabelle
  imports Main
begin

section \<open>The swizzle table generator \<open>shuffle.py\<close>\<close>

text \<open>
  The script consists of four functions, \<open>unit_swizzels\<close>, \<open>vec2_swizzels\<close>,
  \<open>vec3_swizzels\<close> and \<open>vec4_swizzels\<close>, and of top-level statements that call them and
  print empty lines. Its only effect is printing, so the state of the model is the
  standard output: the list of the lines printed so far, oldest first. Every function
  takes that list and returns it extended.
\<close>

subsection \<open>Python's built-ins\<close>

type_synonym stdout = "string list"

text \<open>\<open>print(s)\<close> writes the line \<open>s\<close>.\<close>

definition print :: "string \<Rightarrow> stdout \<Rightarrow> stdout" where
  "print s out = out @ [s]"

text \<open>\<open>range(a, b)\<close> is \<open>a, a + 1, \<dots>, b - 1\<close>, and empty when \<open>b \<le> a\<close>.\<close>

definition py_range :: "int \<Rightarrow> int \<Rightarrow> int list" where
  "py_range a b = [a..b - 1]"

text \<open>
  \<open>"{}".format(i)\<close> for an integer \<open>i\<close> is its decimal representation, with a minus
  sign when it is negative.
\<close>

definition digit_char :: "nat \<Rightarrow> char" where
  "digit_char d = char_of (48 + d)"

fun str_nat :: "nat \<Rightarrow> string" where
  "str_nat n = (if n < 10 then [digit_char n] else str_nat (n div 10) @ [digit_char (n mod 10)])"

declare str_nat.simps [simp del]

definition str_int :: "int \<Rightarrow> string" where
  "str_int i = (if i < 0 then CHR ''-'' # str_nat (nat (- i)) else str_nat (nat i))"

subsection \<open>The four functions\<close>

text \<open>
  A \<open>for\<close> loop over a range is \<open>fold\<close> over the list of its values: the body is run on
  each value in turn, on the output left by the previous iteration. The chain of
  \<open>if\<close>/\<open>elif\<close> that chooses a label is written out in every function for every loop
  variable, as in the source; the initial value \<open>""\<close> of the label is the value that
  remains when no branch is taken.
\<close>

definition unit_swizzels :: "int \<Rightarrow> stdout \<Rightarrow> stdout" where
  "unit_swizzels r =
     fold (\<lambda>i out.
       let c = (if i = 0 then ''x'' else if i = 1 then ''y''
                else if i = 2 then ''z'' else if i = 3 then ''w'' else '''')
       in print (c @ '', '' @ str_int i @ '','') out)
     (py_range 0 r)"

definition vec2_swizzels :: "int \<Rightarrow> stdout \<Rightarrow> stdout" where
  "vec2_swizzels r =
     fold (\<lambda>i.
     fold (\<lambda>j out.
       let c0 = (if i = 0 then ''x'' else if i = 1 then ''y''
                 else if i = 2 then ''z'' else if i = 3 then ''w'' else '''');
           c1 = (if j = 0 then ''x'' else if j = 1 then ''y''
                 else if j = 2 then ''z'' else if j = 3 then ''w'' else '''')
       in print (c0 @ c1 @ '', '' @ str_int i @ '', '' @ str_int j @ '','') out)
     (py_range 0 r))
     (py_range 0 r)"

definition vec3_swizzels :: "int \<Rightarrow> stdout \<Rightarrow> stdout" where
  "vec3_swizzels r =
     fold (\<lambda>i.
     fold (\<lambda>j.
     fold (\<lambda>k out.
       let c0 = (if i = 0 then ''x'' else if i = 1 then ''y''
                 else if i = 2 then ''z'' else if i = 3 then ''w'' else '''');
           c1 = (if j = 0 then ''x'' else if j = 1 then ''y''
                 else if j = 2 then ''z'' else if j = 3 then ''w'' else '''');
           c2 = (if k = 0 then ''x'' else if k = 1 then ''y''
                 else if k = 2 then ''z'' else if k = 3 then ''w'' else '''')
       in print (c0 @ c1 @ c2 @ '', '' @ str_int i @ '', '' @ str_int j @ '', ''
                 @ str_int k @ '','') out)
     (py_range 0 r))
     (py_range 0 r))
     (py_range 0 r)"

definition vec4_swizzels :: "int \<Rightarrow> stdout \<Rightarrow> stdout" where
  "vec4_swizzels r =
     fold (\<lambda>i.
     fold (\<lambda>j.
     fold (\<lambda>k.
     fold (\<lambda>l out.
       let c0 = (if i = 0 then ''x'' else if i = 1 then ''y''
                 else if i = 2 then ''z'' else if i = 3 then ''w'' else '''');
           c1 = (if j = 0 then ''x'' else if j = 1 then ''y''
                 else if j = 2 then ''z'' else if j = 3 then ''w'' else '''');
           c2 = (if k = 0 then ''x'' else if k = 1 then ''y''
                 else if k = 2 then ''z'' else if k = 3 then ''w'' else '''');
           c3 = (if l = 0 then ''x'' else if l = 1 then ''y''
                 else if l = 2 then ''z'' else if l = 3 then ''w'' else '''')
       in print (c0 @ c1 @ c2 @ c3 @ '', '' @ str_int i @ '', '' @ str_int j @ '', ''
                 @ str_int k @ '', '' @ str_int l @ '','') out)
     (py_range 0 r))
     (py_range 0 r))
     (py_range 0 r))
     (py_range 0 r)"

subsection \<open>The top-level statements\<close>

text \<open>
  Outside the function definitions the script is a straight line of statements, each a
  call of one of the four functions on a literal or \<open>print("")\<close>. They are listed in
  the order of the file and run from the empty output.
\<close>

datatype stmt =
    Unit_swizzels int
  | Vec2_swizzels int
  | Vec3_swizzels int
  | Vec4_swizzels int
  | Print string

fun exec :: "stmt \<Rightarrow> stdout \<Rightarrow> stdout" where
  "exec (Unit_swizzels r) = unit_swizzels r"
| "exec (Vec2_swizzels r) = vec2_swizzels r"
| "exec (Vec3_swizzels r) = vec3_swizzels r"
| "exec (Vec4_swizzels r) = vec4_swizzels r"
| "exec (Print s) = print s"

definition script :: "stmt list" where
  "script =
    [Unit_swizzels 2, Print '''', Unit_swizzels 3, Print '''', Unit_swizzels 4, Print '''',
     Vec2_swizzels 2, Print '''', Vec2_swizzels 3, Print '''', Vec2_swizzels 4, Print '''',
     Vec3_swizzels 2, Print '''', Vec3_swizzels 3, Print '''', Vec3_swizzels 4, Print '''',
     Vec4_swizzels 2, Print '''', Vec4_swizzels 3, Print '''', Vec4_swizzels 4, Print '''']"

definition run :: "stmt list \<Rightarrow> stdout" where
  "run ss = fold exec ss []"

subsection \<open>The emitter of the specification\<close>

text \<open>
  The specification speaks of one emitter \<open>emit(k, r)\<close>, with \<open>k\<close> the swizzle length.
  In the source that is the function written for length \<open>k\<close>, called on a fresh output;
  there is no function for any other length.
\<close>

definition emit :: "nat \<Rightarrow> int \<Rightarrow> stdout option" where
  "emit k r =
     (if k = 1 then Some (unit_swizzels r [])
      else if k = 2 then Some (vec2_swizzels r [])
      else if k = 3 then Some (vec3_swizzels r [])
      else if k = 4 then Some (vec4_swizzels r [])
      else None)"

text \<open>
  The calls made by a list of statements, in order: each as the pair of the swizzle
  length of the function called and the argument passed.
\<close>

fun invocations :: "stmt list \<Rightarrow> (nat \<times> int) list" where
  "invocations [] = []"
| "invocations (Unit_swizzels r # ss) = (1, r) # invocations ss"
| "invocations (Vec2_swizzels r # ss) = (2, r) # invocations ss"
| "invocations (Vec3_swizzels r # ss) = (3, r) # invocations ss"
| "invocations (Vec4_swizzels r # ss) = (4, r) # invocations ss"
| "invocations (Print s # ss) = invocations ss"

text \<open>The statement that calls the function of swizzle length \<open>k\<close>.\<close>

definition call :: "nat \<times> int \<Rightarrow> stmt" where
  "call p = (case p of (k, r) \<Rightarrow>
     if k = 1 then Unit_swizzels r else if k = 2 then Vec2_swizzels r
     else if k = 3 then Vec3_swizzels r else Vec4_swizzels r)"

subsection \<open>The generic emitter described by the specification\<close>

text \<open>
  The Component Alphabet of the specification, and the shared lookup of its design
  notes: the alphabet indexed directly. The specification asks that the lookup does
  not change the behaviour of the source, where an index outside \<open>0..3\<close> leaves the label
  empty; the lookup keeps that.
\<close>

definition alphabet :: "string list" where
  "alphabet = [''x'', ''y'', ''z'', ''w'']"

definition lookup_label :: "int \<Rightarrow> string" where
  "lookup_label i = (if 0 \<le> i \<and> i < int (length alphabet) then alphabet ! nat i else [])"

text \<open>
  All tuples of \<open>k\<close> indices below \<open>r\<close>, by recursion on the depth: the leftmost index is
  the outermost loop.
\<close>

fun tuples :: "nat \<Rightarrow> int \<Rightarrow> int list list" where
  "tuples 0 r = [[]]"
| "tuples (Suc k) r = concat (map (\<lambda>i. map ((#) i) (tuples k r)) (py_range 0 r))"

text \<open>
  The line of a tuple, in the form given in the specification: the labels, then each
  index after a comma and a space, then a closing comma.
\<close>

definition render :: "int list \<Rightarrow> string" where
  "render t = concat (map lookup_label t) @ concat (map (\<lambda>i. '', '' @ str_int i) t) @ '',''"

definition emit_generic :: "nat \<Rightarrow> int \<Rightarrow> stdout \<Rightarrow> stdout" where
  "emit_generic k r = fold (\<lambda>t. print (render t)) (tuples k r)"

subsection \<open>Reading a line back\<close>

text \<open>
  The properties of the listing are stated on the printed text. A line is read as a
  consumer of the table would read it: cut at the commas, the first field is the label
  string, the last field (after the closing comma) is empty, and each field between them
  is a space followed by a decimal index.
\<close>

fun split_commas :: "string \<Rightarrow> string list" where
  "split_commas [] = [[]]"
| "split_commas (c # cs) =
     (if c = CHR '','' then [] # split_commas cs
      else (case split_commas cs of [] \<Rightarrow> [[c]] | f # fs \<Rightarrow> (c # f) # fs))"

definition parse_nat :: "string \<Rightarrow> nat" where
  "parse_nat cs = foldl (\<lambda>a c. 10 * a + (of_char c - 48)) 0 cs"

definition parse_int :: "string \<Rightarrow> int" where
  "parse_int cs = (case cs of [] \<Rightarrow> 0
     | c # ds \<Rightarrow> if c = CHR ''-'' then - int (parse_nat ds) else int (parse_nat cs))"

definition line_label :: "string \<Rightarrow> string" where
  "line_label s = hd (split_commas s)"

definition line_indices :: "string \<Rightarrow> int list" where
  "line_indices s = map (\<lambda>f. parse_int (tl f)) (butlast (tl (split_commas s)))"

subsection \<open>Counting in base \<open>r\<close>\<close>

text \<open>
  The successor of a tuple read as a number in base \<open>r\<close>, most significant digit first:
  the rightmost digit is incremented, and a digit that reaches \<open>r\<close> goes back to \<open>0\<close> and
  carries to the left. \<open>incr\<close> works on the reversed tuple.
\<close>

fun incr :: "int \<Rightarrow> int list \<Rightarrow> int list" where
  "incr r [] = []"
| "incr r (d # ds) = (if d + 1 < r then (d + 1) # ds else 0 # incr r ds)"

definition tuple_succ :: "int \<Rightarrow> int list \<Rightarrow> int list" where
  "tuple_succ r t = rev (incr r (rev t))"

definition tuple_value :: "int \<Rightarrow> int list \<Rightarrow> int" where
  "tuple_value r t = foldl (\<lambda>a d. a * r + d) 0 t"

text \<open>The lexicographic order on tuples of integers.\<close>

fun lex_less :: "int list \<Rightarrow> int list \<Rightarrow> bool" where
  "lex_less [] [] = False"
| "lex_less [] (y # ys) = True"
| "lex_less (x # xs) [] = False"
| "lex_less (x # xs) (y # ys) = (x < y \<or> (x = y \<and> lex_less xs ys))"

section \<open>The functions as renderings of tuples\<close>

text \<open>
  A loop whose body only appends to the output appends the concatenation of what its
  iterations append.
\<close>

lemma fold_appends:
  assumes "\<And>x out. f x out = out @ h x"
  shows "fold f xs out = out @ concat (map h xs)"
  by (induction xs arbitrary: out) (simp_all add: assms)

lemma label_chain:
  "(if i = 0 then ''x'' else if i = 1 then ''y'' else if i = 2 then ''z''
    else if i = 3 then ''w'' else '''') = lookup_label (i::int)"
  by (simp add: lookup_label_def alphabet_def)

lemma render_1: "render [i] = lookup_label i @ '', '' @ str_int i @ '',''"
  by (simp add: render_def)

lemma render_2: "render [i, j] = lookup_label i @ lookup_label j @ '', '' @ str_int i @ '', '' @ str_int j @ '',''"
  by (simp add: render_def)

lemma render_3: "render [i, j, k] = lookup_label i @ lookup_label j @ lookup_label k
   @ '', '' @ str_int i @ '', '' @ str_int j @ '', '' @ str_int k @ '',''"
  by (simp add: render_def)

lemma render_4: "render [i, j, k, l] = lookup_label i @ lookup_label j @ lookup_label k @ lookup_label l
   @ '', '' @ str_int i @ '', '' @ str_int j @ '', '' @ str_int k @ '', '' @ str_int l @ '',''"
  by (simp add: render_def)

lemma tuples_1: "tuples 1 r = map (\<lambda>i. [i]) (py_range 0 r)"
  by simp

lemma tuples_Suc_map:
  "map g (tuples (Suc k) r) = concat (map (\<lambda>i. map (\<lambda>t. g (i # t)) (tuples k r)) (py_range 0 r))"
  by (simp add: map_concat comp_def)

lemma unit_swizzels_render: "unit_swizzels r out = out @ map render (tuples 1 r)"
proof -
  have "unit_swizzels r out = out @ concat (map (\<lambda>i. [render [i]]) (py_range 0 r))"
    unfolding unit_swizzels_def
    by (rule fold_appends) (simp only: Let_def label_chain render_1 print_def)
  then show ?thesis by (simp add: tuples_1 comp_def)
qed

lemma vec2_swizzels_render: "vec2_swizzels r out = out @ map render (tuples 2 r)"
proof -
  let ?R = "py_range 0 r"
  have "vec2_swizzels r out = out @ concat (map (\<lambda>i. concat (map (\<lambda>j. [render [i, j]]) ?R)) ?R)"
    unfolding vec2_swizzels_def
    by (rule fold_appends, rule fold_appends) (simp only: Let_def label_chain render_2 print_def)
  then show ?thesis by (simp add: eval_nat_numeral map_concat comp_def)
qed

lemma vec3_swizzels_render: "vec3_swizzels r out = out @ map render (tuples 3 r)"
proof -
  let ?R = "py_range 0 r"
  have "vec3_swizzels r out = out @ concat (map (\<lambda>i. concat (map (\<lambda>j. concat (map (\<lambda>k. [render [i, j, k]]) ?R)) ?R)) ?R)"
    unfolding vec3_swizzels_def
    by (rule fold_appends, rule fold_appends, rule fold_appends) (simp only: Let_def label_chain render_3 print_def)
  then show ?thesis by (simp add: eval_nat_numeral map_concat comp_def)
qed

lemma vec4_swizzels_render: "vec4_swizzels r out = out @ map render (tuples 4 r)"
proof -
  let ?R = "py_range 0 r"
  have "vec4_swizzels r out = out @ concat (map (\<lambda>i. concat (map (\<lambda>j. concat (map (\<lambda>k. concat (map (\<lambda>l. [render [i, j, k, l]]) ?R)) ?R)) ?R)) ?R)"
    unfolding vec4_swizzels_def
    by (rule fold_appends, rule fold_appends, rule fold_appends, rule fold_appends) (simp only: Let_def label_chain render_4 print_def)
  then show ?thesis by (simp add: eval_nat_numeral map_concat comp_def)
qed

lemma emit_generic_render: "emit_generic k r out = out @ map render (tuples k r)"
proof -
  have "emit_generic k r out = out @ concat (map (\<lambda>t. [render t]) (tuples k r))"
    unfolding emit_generic_def by (rule fold_appends) (simp add: print_def)
  then show ?thesis by (simp add: comp_def)
qed

section \<open>The tuples of a batch\<close>

lemma length_py_range: "length (py_range 0 r) = nat r"
  by (simp add: py_range_def)

lemma set_py_range: "set (py_range 0 r) = {0..<r}"
  by (auto simp add: py_range_def)

lemma distinct_py_range: "distinct (py_range 0 r)"
  by (simp add: py_range_def)

lemma tuples_product_lists: "tuples k r = product_lists (replicate k (py_range 0 r))"
  by (induction k) simp_all

lemma length_tuples: "length (tuples k r) = nat r ^ k"
  by (induction k) (simp_all add: length_concat comp_def sum_list_triv length_py_range)

lemma set_tuples: "set (tuples k r) = {t. length t = k \<and> set t \<subseteq> {0..<r}}"
proof (induction k)
  case 0
  then show ?case by auto
next
  case (Suc k)
  show ?case
  proof (rule set_eqI)
    fix t
    show "t \<in> set (tuples (Suc k) r) \<longleftrightarrow> t \<in> {t. length t = Suc k \<and> set t \<subseteq> {0..<r}}"
      by (cases t) (auto simp add: Suc set_py_range)
  qed
qed

lemma distinct_tuples: "distinct (tuples k r)"
  unfolding tuples_product_lists
  by (rule distinct_product_lists) (simp add: distinct_py_range)

lemma length_in_tuples: "t \<in> set (tuples k r) \<Longrightarrow> length t = k"
  by (simp add: set_tuples)

section \<open>Decimal numerals\<close>

lemma of_char_digit_char: "d < 10 \<Longrightarrow> of_char (digit_char d) = 48 + d"
  by (simp add: digit_char_def)

lemma parse_nat_snoc: "parse_nat (cs @ [c]) = 10 * parse_nat cs + (of_char c - 48)"
  by (simp add: parse_nat_def)

lemma parse_nat_str_nat: "parse_nat (str_nat n) = n"
proof (induction n rule: str_nat.induct)
  case (1 n)
  show ?case
  proof (cases "n < 10")
    case True
    then show ?thesis
      by (simp add: str_nat.simps [of n] parse_nat_def of_char_digit_char)
  next
    case False
    with 1 show ?thesis
      by (simp add: str_nat.simps [of n] parse_nat_snoc of_char_digit_char)
  qed
qed

lemma digit_char_not_comma: "d < 10 \<Longrightarrow> digit_char d \<noteq> CHR '',''"
proof
  assume d: "d < 10" and e: "digit_char d = CHR '',''"
  have "of_char (digit_char d) = 48 + d" using d by (rule of_char_digit_char)
  moreover have "of_char (CHR '','') = (44::nat)" by simp
  ultimately have "48 + d = (44::nat)" using e by simp
  then show False by simp
qed

lemma digit_char_not_minus: "d < 10 \<Longrightarrow> digit_char d \<noteq> CHR ''-''"
proof
  assume d: "d < 10" and e: "digit_char d = CHR ''-''"
  have "of_char (digit_char d) = 48 + d" using d by (rule of_char_digit_char)
  moreover have "of_char (CHR ''-'') = (45::nat)" by simp
  ultimately have "48 + d = (45::nat)" using e by simp
  then show False by simp
qed

section \<open>Reading back what was printed\<close>

lemma comma_notin_str_nat: "CHR '','' \<notin> set (str_nat n)"
proof (induction n rule: str_nat.induct)
  case (1 n)
  show ?case
  proof (cases "n < 10")
    case True
    then show ?thesis
      using digit_char_not_comma [of n] by (simp add: str_nat.simps [of n])
  next
    case False
    with 1 show ?thesis
      using digit_char_not_comma [of "n mod 10"] by (simp add: str_nat.simps [of n])
  qed
qed

lemma str_nat_not_Nil: "str_nat n \<noteq> []"
  by (simp add: str_nat.simps [of n])

lemma minus_notin_str_nat: "CHR ''-'' \<notin> set (str_nat n)"
proof (induction n rule: str_nat.induct)
  case (1 n)
  show ?case
  proof (cases "n < 10")
    case True
    then show ?thesis
      using digit_char_not_minus [of n] by (simp add: str_nat.simps [of n])
  next
    case False
    with 1 show ?thesis
      using digit_char_not_minus [of "n mod 10"] by (simp add: str_nat.simps [of n])
  qed
qed

lemma comma_notin_str_int: "CHR '','' \<notin> set (str_int i)"
  by (simp add: str_int_def comma_notin_str_nat)

lemma parse_int_str_int: "parse_int (str_int i) = i"
proof (cases "i < 0")
  case True
  then show ?thesis by (simp add: str_int_def parse_int_def parse_nat_str_nat)
next
  case False
  obtain c ds where s: "str_nat (nat i) = c # ds"
    using str_nat_not_Nil [of "nat i"] by (cases "str_nat (nat i)") auto
  have "c \<noteq> CHR ''-''"
    using minus_notin_str_nat [of "nat i"] s by auto
  moreover have "parse_nat (c # ds) = nat i"
    using parse_nat_str_nat [of "nat i"] s by simp
  ultimately show ?thesis using False s by (simp add: str_int_def parse_int_def)
qed

lemma split_commas_not_Nil: "split_commas s \<noteq> []"
  by (induction s) (auto split: list.splits)

lemma split_commas_append:
  "CHR '','' \<notin> set a \<Longrightarrow> split_commas (a @ CHR '','' # b) = a # split_commas b"
  by (induction a) (auto split: list.splits)

lemma split_commas_plain: "CHR '','' \<notin> set a \<Longrightarrow> split_commas a = [a]"
  by (induction a) (auto split: list.splits)

lemma split_commas_indices:
  "CHR '','' \<notin> set a \<Longrightarrow>
   split_commas (a @ concat (map (\<lambda>i. '', '' @ str_int i) t) @ '','')
     = a # map (\<lambda>i. CHR '' '' # str_int i) t @ [[]]"
proof (induction t arbitrary: a)
  case Nil
  then show ?case using split_commas_append [of a "[]"] by simp
next
  case (Cons i t)
  have "CHR '','' \<notin> set (CHR '' '' # str_int i)"
    by (simp add: comma_notin_str_int)
  from Cons.IH [OF this] Cons.prems show ?case
    using split_commas_append [of a "(CHR '' '' # str_int i) @ concat (map (\<lambda>i. '', '' @ str_int i) t) @ '',''"]
    by simp
qed

lemma comma_notin_lookup_label: "CHR '','' \<notin> set (lookup_label i)"
  unfolding label_chain [symmetric] by simp

lemma split_commas_render:
  "split_commas (render t) = concat (map lookup_label t) # map (\<lambda>i. CHR '' '' # str_int i) t @ [[]]"
  unfolding render_def
  by (rule split_commas_indices) (simp add: comma_notin_lookup_label)

lemma line_label_render: "line_label (render t) = concat (map lookup_label t)"
  by (simp add: line_label_def split_commas_render)

lemma line_indices_render: "line_indices (render t) = t"
  by (simp add: line_indices_def split_commas_render comp_def parse_int_str_int)

section \<open>The position of a tuple in its batch\<close>

lemma nth_concat_uniform:
  assumes "\<forall>xs \<in> set xss. length xs = m" and "n < m * length xss"
  shows "concat xss ! n = xss ! (n div m) ! (n mod m)"
  using assms
proof (induction xss arbitrary: n)
  case Nil
  then show ?case by simp
next
  case (Cons xs xss)
  have m: "length xs = m" "0 < m" using Cons.prems by auto
  show ?case
  proof (cases "n < m")
    case True
    then show ?thesis using m by (simp add: nth_append)
  next
    case False
    then have n: "n = (n - m) + m" by simp
    have lt: "n - m < m * length xss" using Cons.prems False by simp
    have d: "n div m = Suc ((n - m) div m)" and r: "n mod m = (n - m) mod m"
      using False m by (simp_all add: le_div_geq le_mod_geq)
    have "concat (xs # xss) ! n = concat xss ! (n - m)"
      using False m by (simp add: nth_append)
    also have "\<dots> = xss ! ((n - m) div m) ! ((n - m) mod m)"
      using Cons.IH [OF _ lt] Cons.prems by simp
    finally show ?thesis using d r by simp
  qed
qed

lemma nth_py_range: "j < nat r \<Longrightarrow> py_range 0 r ! j = int j"
  by (simp add: py_range_def)

lemma nth_tuples_Suc:
  assumes "n < nat r ^ Suc k"
  shows "tuples (Suc k) r ! n = int (n div nat r ^ k) # tuples k r ! (n mod nat r ^ k)"
proof -
  let ?m = "nat r ^ k"
  let ?xss = "map (\<lambda>i. map ((#) i) (tuples k r)) (py_range 0 r)"
  have n: "n < ?m * length ?xss" using assms by (simp add: length_py_range mult.commute)
  then have pos: "0 < ?m" by (cases "?m = 0") auto
  have q: "n div ?m < nat r" using assms pos
    by (simp add: less_mult_imp_div_less mult.commute)
  have "tuples (Suc k) r ! n = ?xss ! (n div ?m) ! (n mod ?m)"
    unfolding tuples.simps
    by (rule nth_concat_uniform [OF _ n]) (auto simp add: length_tuples)
  also have "\<dots> = int (n div ?m) # tuples k r ! (n mod ?m)"
    using q pos by (simp add: length_py_range nth_py_range length_tuples)
  finally show ?thesis .
qed

lemma foldl_base: "foldl (\<lambda>a d. a * r + d) a t = a * r ^ length t + foldl (\<lambda>a d. a * r + d) 0 (t::int list)"
proof (induction t arbitrary: a)
  case Nil
  then show ?case by simp
next
  case (Cons d t)
  show ?case
    using Cons.IH [of "a * r + d"] Cons.IH [of d] by (simp add: algebra_simps)
qed

lemma tuple_value_Cons: "tuple_value r (d # t) = d * r ^ length t + tuple_value r t"
  using foldl_base [of r d t] by (simp add: tuple_value_def)

lemma length_nth_tuples: "n < nat r ^ k \<Longrightarrow> length (tuples k r ! n) = k"
  using length_in_tuples [of "tuples k r ! n" k r] by (simp add: length_tuples)

lemma tuple_value_nth: "n < nat r ^ k \<Longrightarrow> tuple_value r (tuples k r ! n) = int n"
proof (induction k arbitrary: n)
  case 0
  then show ?case by (simp add: tuple_value_def)
next
  case (Suc k)
  let ?m = "nat r ^ k"
  have pos: "0 < ?m" using Suc.prems by (cases "?m = 0") auto
  have "0 < nat r" using Suc.prems by (cases "nat r = 0") auto
  then have r: "0 < r" by simp
  have lt: "n mod ?m < ?m" using pos by simp
  have p: "r ^ k = int ?m" using r by simp
  have v: "tuple_value r (tuples (Suc k) r ! n)
      = int (n div ?m) * r ^ k + int (n mod ?m)"
    by (simp only: nth_tuples_Suc [OF Suc.prems] tuple_value_Cons
        length_nth_tuples [OF lt] Suc.IH [OF lt])
  have "int (n div ?m) * r ^ k + int (n mod ?m) = int (n div ?m) * int ?m + int (n mod ?m)"
    by (simp only: p)
  also have "\<dots> = int (n div ?m * ?m + n mod ?m)"
    by (simp only: of_nat_add of_nat_mult)
  also have "\<dots> = int n"
    by (simp only: div_mult_mod_eq)
  finally show ?case using v by (simp only:)
qed

lemma incr_snoc_carry:
  "d + 1 < r \<Longrightarrow> incr r (replicate k (r - 1) @ [d]) = replicate k 0 @ [d + 1]"
  by (induction k) simp_all

lemma incr_snoc_keep:
  "\<exists>x \<in> set xs. x + 1 < r \<Longrightarrow> incr r (xs @ [d]) = incr r xs @ [d]"
  by (induction xs) auto

lemma tuple_succ_keep:
  "\<exists>x \<in> set t. x + 1 < r \<Longrightarrow> tuple_succ r (d # t) = d # tuple_succ r t"
  by (simp add: tuple_succ_def incr_snoc_keep)

lemma tuple_succ_carry:
  "d + 1 < r \<Longrightarrow> tuple_succ r (d # replicate k (r - 1)) = (d + 1) # replicate k 0"
  by (simp add: tuple_succ_def incr_snoc_carry)

lemma nth_tuples_0: "0 < r \<Longrightarrow> tuples k r ! 0 = replicate k 0"
proof (induction k)
  case 0
  then show ?case by simp
next
  case (Suc k)
  have "0 < nat r ^ Suc k" using Suc.prems by simp
  from nth_tuples_Suc [OF this] Suc show ?case by simp
qed

lemma nth_tuples_last: "0 < r \<Longrightarrow> tuples k r ! (nat r ^ k - 1) = replicate k (r - 1)"
proof (induction k)
  case 0
  then show ?case by simp
next
  case (Suc k)
  let ?m = "nat r ^ k"
  have pos: "0 < ?m" using Suc.prems by simp
  have r: "0 < nat r" using Suc.prems by simp
  have e: "nat r ^ Suc k - 1 = (nat r - 1) * ?m + (?m - 1)"
    using pos r by (cases "nat r") (simp_all add: algebra_simps)
  have lt: "nat r ^ Suc k - 1 < nat r ^ Suc k" using pos r by simp
  have b: "?m - 1 < ?m" using pos by simp
  have d: "(nat r ^ Suc k - 1) div ?m = nat r - 1"
    unfolding e using b by (simp only: div_mult_self3 div_less)
  have m: "(nat r ^ Suc k - 1) mod ?m = ?m - 1"
    unfolding e using b by (simp only: mod_mult_self3 mod_less)
  have "int (nat r - 1) = r - 1" using Suc.prems by simp
  then show ?case
    using nth_tuples_Suc [OF lt] Suc d m by simp
qed

lemma block_step:
  assumes "Suc n < r * m"
  shows "(Suc (n mod m) < m \<and> Suc n div m = n div m \<and> Suc n mod m = Suc (n mod m))
       \<or> (Suc (n mod m) = m \<and> Suc n div m = Suc (n div m) \<and> Suc n mod m = 0
            \<and> Suc (n div m) < r)"
proof -
  have pos: "0 < m" using assms by (cases "m = 0") auto
  have lt: "n mod m < m" using pos by simp
  show ?thesis
  proof (cases "Suc (n mod m) = m")
    case True
    then have m0: "Suc n mod m = 0" by (simp add: mod_Suc)
    then have d: "Suc n div m = Suc (n div m)" by (simp add: div_Suc)
    have "Suc n div m < r"
      using assms pos by (simp add: less_mult_imp_div_less)
    with True m0 d show ?thesis by simp
  next
    case False
    then have "Suc (n mod m) < m" using lt by simp
    moreover have m1: "Suc n mod m = Suc (n mod m)" using False by (simp add: mod_Suc)
    moreover have "Suc n div m = n div m" using m1 by (simp add: div_Suc)
    ultimately show ?thesis by simp
  qed
qed

lemma nth_tuples_can_step:
  "Suc n < nat r ^ k \<Longrightarrow> \<exists>x \<in> set (tuples k r ! n). x + 1 < r"
proof (induction k arbitrary: n)
  case 0
  then show ?case by simp
next
  case (Suc k)
  let ?m = "nat r ^ k"
  have n: "n < nat r ^ Suc k" using Suc.prems by simp
  have s: "Suc n < nat r * ?m" using Suc.prems by simp
  have e: "tuples (Suc k) r ! n = int (n div ?m) # tuples k r ! (n mod ?m)"
    by (rule nth_tuples_Suc [OF n])
  from block_step [OF s] show ?case
  proof
    assume "Suc (n mod ?m) < ?m \<and> Suc n div ?m = n div ?m \<and> Suc n mod ?m = Suc (n mod ?m)"
    then have "\<exists>x \<in> set (tuples k r ! (n mod ?m)). x + 1 < r"
      using Suc.IH by blast
    then show ?thesis unfolding e by auto
  next
    assume "Suc (n mod ?m) = ?m \<and> Suc n div ?m = Suc (n div ?m) \<and> Suc n mod ?m = 0
            \<and> Suc (n div ?m) < nat r"
    then have "int (n div ?m) + 1 < r" by linarith
    then show ?thesis unfolding e by auto
  qed
qed

lemma nth_tuples_step:
  "Suc n < nat r ^ k \<Longrightarrow>
   tuples k r ! Suc n = tuple_succ r (tuples k r ! n)
   \<and> lex_less (tuples k r ! n) (tuples k r ! Suc n)"
proof (induction k arbitrary: n)
  case 0
  then show ?case by simp
next
  case (Suc k)
  let ?m = "nat r ^ k"
  have n: "n < nat r ^ Suc k" using Suc.prems by simp
  have s: "Suc n < nat r * ?m" using Suc.prems by simp
  have r: "0 < r" using s by (cases "0 < r") auto
  have e: "tuples (Suc k) r ! n = int (n div ?m) # tuples k r ! (n mod ?m)"
    by (rule nth_tuples_Suc [OF n])
  have e': "tuples (Suc k) r ! Suc n = int (Suc n div ?m) # tuples k r ! (Suc n mod ?m)"
    by (rule nth_tuples_Suc [OF Suc.prems])
  from block_step [OF s] show ?case
  proof
    assume a: "Suc (n mod ?m) < ?m \<and> Suc n div ?m = n div ?m \<and> Suc n mod ?m = Suc (n mod ?m)"
    then have ih: "tuples k r ! Suc (n mod ?m) = tuple_succ r (tuples k r ! (n mod ?m))
       \<and> lex_less (tuples k r ! (n mod ?m)) (tuples k r ! Suc (n mod ?m))"
      using Suc.IH by blast
    have "\<exists>x \<in> set (tuples k r ! (n mod ?m)). x + 1 < r"
      using a nth_tuples_can_step by blast
    then have "tuple_succ r (int (n div ?m) # tuples k r ! (n mod ?m))
        = int (n div ?m) # tuple_succ r (tuples k r ! (n mod ?m))"
      by (rule tuple_succ_keep)
    then have "tuples (Suc k) r ! Suc n = tuple_succ r (tuples (Suc k) r ! n)"
      unfolding e e' using a ih by (simp only:)
    moreover have "lex_less (tuples (Suc k) r ! n) (tuples (Suc k) r ! Suc n)"
    proof -
      have "Suc n mod ?m = Suc (n mod ?m)" using a by blast
      moreover have "lex_less (tuples k r ! (n mod ?m)) (tuples k r ! Suc (n mod ?m))"
        using ih by blast
      ultimately have "lex_less (tuples k r ! (n mod ?m)) (tuples k r ! (Suc n mod ?m))"
        by (simp only:)
      moreover have "int (Suc n div ?m) = int (n div ?m)"
        using a by (simp only:)
      ultimately show ?thesis
        unfolding e e' by (simp only: lex_less.simps) simp
    qed
    ultimately show ?thesis by (rule conjI)
  next
    assume a: "Suc (n mod ?m) = ?m \<and> Suc n div ?m = Suc (n div ?m) \<and> Suc n mod ?m = 0
            \<and> Suc (n div ?m) < nat r"
    then have d: "int (n div ?m) + 1 < r" by linarith
    have l: "n mod ?m = ?m - 1" using a by linarith
    have t0: "tuples k r ! (Suc n mod ?m) = replicate k 0"
      using a nth_tuples_0 [OF r, of k] by simp
    have tl: "tuples k r ! (n mod ?m) = replicate k (r - 1)"
      unfolding l by (rule nth_tuples_last [OF r])
    have dd: "int (Suc n div ?m) = int (n div ?m) + 1"
      using a by simp
    have "tuple_succ r (int (n div ?m) # replicate k (r - 1))
        = (int (n div ?m) + 1) # replicate k 0"
      using d by (rule tuple_succ_carry)
    then have "tuples (Suc k) r ! Suc n = tuple_succ r (tuples (Suc k) r ! n)"
      unfolding e e' t0 tl dd by (simp only:)
    moreover have "lex_less (tuples (Suc k) r ! n) (tuples (Suc k) r ! Suc n)"
      unfolding e e' t0 tl dd by simp
    ultimately show ?thesis by (rule conjI)
  qed
qed

section \<open>The claims\<close>

lemma emit_render: "k \<in> {1, 2, 3, 4} \<Longrightarrow> emit k r = Some (map render (tuples k r))"
  using unit_swizzels_render [of r "[]"] vec2_swizzels_render [of r "[]"]
    vec3_swizzels_render [of r "[]"] vec4_swizzels_render [of r "[]"]
  by (auto simp add: emit_def)

lemma exec_call: "k \<in> {1, 2, 3, 4} \<Longrightarrow> exec (call (k, r)) out = out @ map render (tuples k r)"
  by (auto simp add: call_def unit_swizzels_render vec2_swizzels_render
      vec3_swizzels_render vec4_swizzels_render)

text \<open>
  Claim C1, as stated: the script would call the emitter nine times. It calls it twelve
  times: each of the four functions three times.
\<close>

theorem script_nine_invocations_counterexample:
  "length (invocations script) = 12 \<and> length (invocations script) \<noteq> 9"
  by (simp add: script_def)

lemma run_script:
  "run script =
     unit_swizzels 2 [] @ [''''] @ unit_swizzels 3 [] @ [''''] @ unit_swizzels 4 [] @ ['''']
   @ vec2_swizzels 2 [] @ [''''] @ vec2_swizzels 3 [] @ [''''] @ vec2_swizzels 4 [] @ ['''']
   @ vec3_swizzels 2 [] @ [''''] @ vec3_swizzels 3 [] @ [''''] @ vec3_swizzels 4 [] @ ['''']
   @ vec4_swizzels 2 [] @ [''''] @ vec4_swizzels 3 [] @ [''''] @ vec4_swizzels 4 [] @ ['''']"
  by (simp add: run_def script_def print_def unit_swizzels_render vec2_swizzels_render
      vec3_swizzels_render vec4_swizzels_render)

text \<open>
  Claim C1, amended: the script calls the emitter twelve times, the swizzle lengths
  1, 2, 3, 4 in this order and each of them for the bounds 2, 3, 4 in this order; every
  call is followed by one \<open>print("")\<close>, and nothing else is run, so the output is the
  twelve batches in that order with one blank line after each.
\<close>

theorem script_twelve_invocations:
  "invocations script =
     [(1, 2), (1, 3), (1, 4), (2, 2), (2, 3), (2, 4),
      (3, 2), (3, 3), (3, 4), (4, 2), (4, 3), (4, 4)]
   \<and> script = concat (map (\<lambda>p. [call p, Print '''']) (invocations script))
   \<and> run script =
     unit_swizzels 2 [] @ [''''] @ unit_swizzels 3 [] @ [''''] @ unit_swizzels 4 [] @ ['''']
   @ vec2_swizzels 2 [] @ [''''] @ vec2_swizzels 3 [] @ [''''] @ vec2_swizzels 4 [] @ ['''']
   @ vec3_swizzels 2 [] @ [''''] @ vec3_swizzels 3 [] @ [''''] @ vec3_swizzels 4 [] @ ['''']
   @ vec4_swizzels 2 [] @ [''''] @ vec4_swizzels 3 [] @ [''''] @ vec4_swizzels 4 [] @ ['''']"
proof (intro conjI)
  show i: "invocations script =
     [(1, 2), (1, 3), (1, 4), (2, 2), (2, 3), (2, 4),
      (3, 2), (3, 3), (3, 4), (4, 2), (4, 3), (4, 4)]"
    by (simp add: script_def)
  show "script = concat (map (\<lambda>p. [call p, Print '''']) (invocations script))"
    unfolding i by (simp add: script_def call_def)
  show "run script =
     unit_swizzels 2 [] @ [''''] @ unit_swizzels 3 [] @ [''''] @ unit_swizzels 4 [] @ ['''']
   @ vec2_swizzels 2 [] @ [''''] @ vec2_swizzels 3 [] @ [''''] @ vec2_swizzels 4 [] @ ['''']
   @ vec3_swizzels 2 [] @ [''''] @ vec3_swizzels 3 [] @ [''''] @ vec3_swizzels 4 [] @ ['''']
   @ vec4_swizzels 2 [] @ [''''] @ vec4_swizzels 3 [] @ [''''] @ vec4_swizzels 4 [] @ ['''']"
    by (rule run_script)
qed

text \<open>
  Claim C2, as stated: the batch of swizzle length 2 and bound 2 would be the four lines
  \<open>xx,0,0,\<close>, \<open>xy,0,1,\<close>, \<open>yx,1,0,\<close>, \<open>yy,1,1,\<close>, with no space after the commas. The
  format string of \<open>vec2_swizzels\<close> puts a space after every comma but the last, so the
  batch is not that list.
\<close>

theorem vec2_swizzels_2_no_space_counterexample:
  "emit 2 2 \<noteq> Some [''xx,0,0,'', ''xy,0,1,'', ''yx,1,0,'', ''yy,1,1,'']"
  by code_simp

text \<open>
  Claim C2, amended: the batch of swizzle length 2 and bound 2 is exactly the four lines
  \<open>xx, 0, 0,\<close>, \<open>xy, 0, 1,\<close>, \<open>yx, 1, 0,\<close>, \<open>yy, 1, 1,\<close>, in this order.
\<close>

theorem vec2_swizzels_2_lines:
  "emit 2 2 = Some [''xx, 0, 0,'', ''xy, 0, 1,'', ''yx, 1, 0,'', ''yy, 1, 1,'']
   \<and> vec2_swizzels 2 [] = [''xx, 0, 0,'', ''xy, 0, 1,'', ''yx, 1, 0,'', ''yy, 1, 1,'']"
  by code_simp

text \<open>
  Claim C3. The batch of swizzle length 1 and bound 2 is exactly the two lines
  \<open>x, 0,\<close> and \<open>y, 1,\<close>, in this order.
\<close>

theorem unit_swizzels_2_lines:
  "emit 1 2 = Some [''x, 0,'', ''y, 1,''] \<and> unit_swizzels 2 [] = [''x, 0,'', ''y, 1,'']"
  by code_simp

lemma map_line_indices_render: "map line_indices (map render ts) = ts"
  by (induction ts) (simp_all add: line_indices_render)

lemma inj_render: "inj_on render A"
  by (rule inj_on_inverseI [where g = line_indices]) (rule line_indices_render)

lemma distinct_map_render: "distinct ts \<Longrightarrow> distinct (map render ts)"
  by (simp add: distinct_map inj_render)

text \<open>
  Claim C4. For every swizzle length \<open>k\<close> in 1..4 and every bound \<open>r\<close> in 2..4 the batch
  has exactly \<open>r ^ k\<close> lines, no two lines carry the same index tuple (and no two lines
  are the same text), and the index tuples of the lines are exactly the tuples of \<open>k\<close>
  indices from \<open>0..r - 1\<close>.
\<close>

theorem batch_is_cartesian_product:
  assumes "k \<in> {1, 2, 3, 4}" and "r \<in> {2, 3, 4}"
  shows "\<exists>ls. emit k r = Some ls \<and> length ls = nat r ^ k
     \<and> distinct ls \<and> distinct (map line_indices ls)
     \<and> set (map line_indices ls) = {t. length t = k \<and> set t \<subseteq> {0..<r}}"
proof -
  let ?ls = "map render (tuples k r)"
  have "emit k r = Some ?ls"
    using assms(1) by (rule emit_render)
  moreover have "length ?ls = nat r ^ k"
    by (simp add: length_tuples)
  moreover have "distinct ?ls"
    by (rule distinct_map_render) (rule distinct_tuples)
  moreover have "distinct (map line_indices ?ls)"
    unfolding map_line_indices_render by (rule distinct_tuples)
  moreover have "set (map line_indices ?ls) = {t. length t = k \<and> set t \<subseteq> {0..<r}}"
    unfolding map_line_indices_render by (rule set_tuples)
  ultimately show ?thesis by blast
qed

theorem batch_is_cartesian_product_witness:
  "(2::nat) \<in> {1, 2, 3, 4} \<and> (3::int) \<in> {2, 3, 4} \<and>
   (\<exists>ls. emit 2 3 = Some ls \<and> length ls = 9
     \<and> distinct ls \<and> distinct (map line_indices ls)
     \<and> set (map line_indices ls) = {t. length t = 2 \<and> set t \<subseteq> {0..<3}})"
  using batch_is_cartesian_product [of 2 3] by simp

text \<open>
  Claim C5. For every swizzle length \<open>k\<close> in 1..4 and every bound \<open>r\<close> in 2..4 the batch
  counts in base \<open>r\<close> with the rightmost index varying fastest: the index tuple of each
  line but the last is followed by its successor, which is greater in the lexicographic
  order; the first line carries the tuple of zeros, and the tuple of line \<open>n\<close> (from 0),
  read as a number in base \<open>r\<close>, is \<open>n\<close>.
\<close>

theorem batch_counts_in_base_r:
  assumes "k \<in> {1, 2, 3, 4}" and "r \<in> {2, 3, 4}"
  shows "\<exists>ls. emit k r = Some ls
     \<and> (\<forall>n. Suc n < length ls \<longrightarrow>
          line_indices (ls ! Suc n) = tuple_succ r (line_indices (ls ! n))
          \<and> lex_less (line_indices (ls ! n)) (line_indices (ls ! Suc n)))
     \<and> line_indices (ls ! 0) = replicate k 0
     \<and> (\<forall>n < length ls. tuple_value r (line_indices (ls ! n)) = int n)"
proof -
  let ?ls = "map render (tuples k r)"
  have r: "0 < r" using assms(2) by auto
  have e: "emit k r = Some ?ls"
    using assms(1) by (rule emit_render)
  have nth: "line_indices (?ls ! n) = tuples k r ! n" if "n < nat r ^ k" for n
    using that by (simp add: length_tuples line_indices_render)
  have step: "\<forall>n. Suc n < length ?ls \<longrightarrow>
          line_indices (?ls ! Suc n) = tuple_succ r (line_indices (?ls ! n))
          \<and> lex_less (line_indices (?ls ! n)) (line_indices (?ls ! Suc n))"
  proof (intro allI impI)
    fix n assume "Suc n < length ?ls"
    then have s: "Suc n < nat r ^ k" by (simp add: length_tuples)
    then have n: "n < nat r ^ k" by simp
    show "line_indices (?ls ! Suc n) = tuple_succ r (line_indices (?ls ! n))
          \<and> lex_less (line_indices (?ls ! n)) (line_indices (?ls ! Suc n))"
      unfolding nth [OF s] nth [OF n] by (rule nth_tuples_step [OF s])
  qed
  have "0 < nat r ^ k" using r by simp
  then have first: "line_indices (?ls ! 0) = replicate k 0"
    using nth [of 0] nth_tuples_0 [OF r, of k] by simp
  have val: "\<forall>n < length ?ls. tuple_value r (line_indices (?ls ! n)) = int n"
  proof (intro allI impI)
    fix n assume "n < length ?ls"
    then have n: "n < nat r ^ k" by (simp add: length_tuples)
    show "tuple_value r (line_indices (?ls ! n)) = int n"
      unfolding nth [OF n] by (rule tuple_value_nth [OF n])
  qed
  from e step first val show ?thesis by blast
qed

theorem batch_counts_in_base_r_witness:
  "(2::nat) \<in> {1, 2, 3, 4} \<and> (2::int) \<in> {2, 3, 4} \<and>
   (\<exists>ls. emit 2 2 = Some ls
     \<and> (\<forall>n. Suc n < length ls \<longrightarrow>
          line_indices (ls ! Suc n) = tuple_succ 2 (line_indices (ls ! n))
          \<and> lex_less (line_indices (ls ! n)) (line_indices (ls ! Suc n)))
     \<and> line_indices (ls ! 0) = replicate 2 0
     \<and> (\<forall>n < length ls. tuple_value 2 (line_indices (ls ! n)) = int n))"
  using batch_counts_in_base_r [of 2 2] by simp

lemma lookup_label_in_range:
  "0 \<le> i \<Longrightarrow> i < 4 \<Longrightarrow> length (lookup_label i) = 1 \<and> lookup_label i = alphabet ! nat i"
proof -
  assume "0 \<le> i" and "i < 4"
  then have "i = 0 \<or> i = 1 \<or> i = 2 \<or> i = 3" by arith
  then show ?thesis
    by (auto simp add: lookup_label_def alphabet_def)
qed

lemma concat_singletons:
  assumes "\<forall>x \<in> set xs. length (f x) = 1"
  shows "length (concat (map f xs)) = length xs
     \<and> (\<forall>m < length xs. [concat (map f xs) ! m] = f (xs ! m))"
  using assms
proof (induction xs)
  case Nil
  then show ?case by simp
next
  case (Cons x xs)
  then obtain c where c: "f x = [c]"
    by (cases "f x") auto
  have ih: "length (concat (map f xs)) = length xs
     \<and> (\<forall>m < length xs. [concat (map f xs) ! m] = f (xs ! m))"
    using Cons by simp
  show ?case
  proof (intro conjI allI impI)
    show "length (concat (map f (x # xs))) = length (x # xs)"
      using c ih by simp
    fix m assume "m < length (x # xs)"
    then show "[concat (map f (x # xs)) ! m] = f ((x # xs) ! m)"
      using c ih by (cases m) simp_all
  qed
qed

text \<open>
  Claim C6. For every swizzle length \<open>k\<close> in 1..4 and every bound \<open>r\<close> in 2..4, on every
  line of the batch the label string has exactly \<open>k\<close> characters, the line carries \<open>k\<close>
  indices, and the \<open>m\<close>-th character of the label is the entry of the Component Alphabet
  at the \<open>m\<close>-th index of the line.
\<close>

theorem labels_follow_indices:
  assumes "k \<in> {1, 2, 3, 4}" and "r \<in> {2, 3, 4}"
  shows "\<exists>ls. emit k r = Some ls \<and>
     (\<forall>l \<in> set ls. length (line_label l) = k \<and> length (line_indices l) = k
        \<and> (\<forall>m < k. [line_label l ! m] = alphabet ! nat (line_indices l ! m)))"
proof -
  have e: "emit k r = Some (map render (tuples k r))"
    using assms(1) by (rule emit_render)
  have "length (line_label (render t)) = k \<and> length (line_indices (render t)) = k
        \<and> (\<forall>m < k. [line_label (render t) ! m] = alphabet ! nat (line_indices (render t) ! m))"
    if t: "t \<in> set (tuples k r)" for t
  proof -
    have len: "length t = k" and rng: "\<forall>i \<in> set t. 0 \<le> i \<and> i < 4"
      using t assms(2) by (auto simp add: set_tuples)
    have one: "\<forall>i \<in> set t. length (lookup_label i) = 1"
      using rng lookup_label_in_range by blast
    have "\<forall>m < k. lookup_label (t ! m) = alphabet ! nat (t ! m)"
      using rng len lookup_label_in_range by (metis nth_mem)
    then show ?thesis
      using concat_singletons [OF one] len
      by (simp add: line_label_render line_indices_render)
  qed
  then show ?thesis using e by auto
qed

theorem labels_follow_indices_witness:
  "(3::nat) \<in> {1, 2, 3, 4} \<and> (4::int) \<in> {2, 3, 4} \<and>
   (\<exists>ls. emit 3 4 = Some ls \<and>
     (\<forall>l \<in> set ls. length (line_label l) = 3 \<and> length (line_indices l) = 3
        \<and> (\<forall>m < 3. [line_label l ! m] = alphabet ! nat (line_indices l ! m))))"
  using labels_follow_indices [of 3 4] by simp

lemma lookup_label_nonneg:
  "0 \<le> i \<Longrightarrow> lookup_label i = (if 4 \<le> i then [] else alphabet ! nat i)"
  by (simp add: lookup_label_def alphabet_def)

text \<open>
  Claim C7. No statement of the four functions can raise on an integer bound (a range, a
  comparison of integers, a format of strings and integers, a print), so the functions
  have no error result. For every bound \<open>r\<close> above 4 (and every swizzle length \<open>k\<close> in
  1..4) the emitter returns its batch: one line for each tuple of \<open>k\<close> indices from
  \<open>0..r - 1\<close>. On every line all \<open>k\<close> indices are printed, and the label string is made of
  the alphabet entries of the indices below 4 only: an index that is 4 or more adds
  nothing to it. The line of the tuple whose indices are all \<open>r - 1\<close> is in the batch, with
  an empty label.
\<close>

theorem bound_above_four_leaves_labels_empty:
  assumes "k \<in> {1, 2, 3, 4}" and "4 < r"
  shows "\<exists>ls. emit k r = Some ls \<and> length ls = nat r ^ k
     \<and> distinct (map line_indices ls)
     \<and> set (map line_indices ls) = {t. length t = k \<and> set t \<subseteq> {0..<r}}
     \<and> (\<forall>l \<in> set ls. length (line_indices l) = k
          \<and> line_label l
              = concat (map (\<lambda>i. if 4 \<le> i then [] else alphabet ! nat i) (line_indices l)))
     \<and> (\<exists>l \<in> set ls. line_indices l = replicate k (r - 1) \<and> line_label l = [])"
proof -
  let ?ls = "map render (tuples k r)"
  have e: "emit k r = Some ?ls"
    using assms(1) by (rule emit_render)
  have n: "length ?ls = nat r ^ k"
    by (simp add: length_tuples)
  have d: "distinct (map line_indices ?ls)"
    unfolding map_line_indices_render by (rule distinct_tuples)
  have s: "set (map line_indices ?ls) = {t. length t = k \<and> set t \<subseteq> {0..<r}}"
    unfolding map_line_indices_render by (rule set_tuples)
  have lab: "length (line_indices (render t)) = k
          \<and> line_label (render t)
              = concat (map (\<lambda>i. if 4 \<le> i then [] else alphabet ! nat i) (line_indices (render t)))"
    if t: "t \<in> set (tuples k r)" for t
  proof -
    have len: "length t = k" and rng: "\<forall>i \<in> set t. 0 \<le> i"
      using t by (auto simp add: set_tuples)
    have "map lookup_label t = map (\<lambda>i. if 4 \<le> i then [] else alphabet ! nat i) t"
      using rng by (simp add: lookup_label_nonneg)
    then have "line_label (render t)
        = concat (map (\<lambda>i. if 4 \<le> i then [] else alphabet ! nat i) t)"
      by (simp only: line_label_render)
    then show ?thesis
      using len by (simp only: line_indices_render)
  qed
  have top: "replicate k (r - 1) \<in> set (tuples k r)"
    using assms(2) by (auto simp add: set_tuples)
  have "lookup_label (r - 1) = []"
    using assms(2) by (simp add: lookup_label_def alphabet_def)
  then have "line_label (render (replicate k (r - 1))) = []"
    by (simp add: line_label_render)
  then have last: "\<exists>l \<in> set ?ls. line_indices l = replicate k (r - 1) \<and> line_label l = []"
    using top by (auto simp add: line_indices_render)
  have every: "\<forall>l \<in> set ?ls. length (line_indices l) = k
          \<and> line_label l
              = concat (map (\<lambda>i. if 4 \<le> i then [] else alphabet ! nat i) (line_indices l))"
    using lab by auto
  from e n d s every last show ?thesis by blast
qed

theorem bound_above_four_leaves_labels_empty_witness:
  "(1::nat) \<in> {1, 2, 3, 4} \<and> (4::int) < 5 \<and>
   (\<exists>ls. emit 1 5 = Some ls \<and> length ls = 5
     \<and> distinct (map line_indices ls)
     \<and> set (map line_indices ls) = {t. length t = 1 \<and> set t \<subseteq> {0..<5}}
     \<and> (\<forall>l \<in> set ls. length (line_indices l) = 1
          \<and> line_label l
              = concat (map (\<lambda>i. if 4 \<le> i then [] else alphabet ! nat i) (line_indices l)))
     \<and> (\<exists>l \<in> set ls. line_indices l = replicate 1 (5 - 1) \<and> line_label l = []))"
  using bound_above_four_leaves_labels_empty [of 1 5] by simp

text \<open>
  Claim C8. For every swizzle length \<open>k\<close> in 1..4 and every \<open>r\<close> there is one sequence of
  lines that every invocation writes, whatever was printed before it: it is the batch
  of a fresh invocation, and invoking the emitter a second time writes the same lines in
  the same order again.
\<close>

theorem emit_is_restartable:
  assumes "k \<in> {1, 2, 3, 4}"
  shows "\<exists>ls. emit k r = Some ls
     \<and> (\<forall>out. exec (call (k, r)) out = out @ ls)
     \<and> (\<forall>out. exec (call (k, r)) (exec (call (k, r)) out) = out @ ls @ ls)"
  using emit_render [OF assms, of r] exec_call [OF assms, of r] by simp

theorem emit_is_restartable_witness:
  "(2::nat) \<in> {1, 2, 3, 4} \<and>
   (\<exists>ls. emit 2 7 = Some ls
     \<and> (\<forall>out. exec (call (2, 7)) out = out @ ls)
     \<and> (\<forall>out. exec (call (2, 7)) (exec (call (2, 7)) out) = out @ ls @ ls))"
  using emit_is_restartable [of 2 7] by simp

text \<open>
  Claim C9. The generic emitter of the specification, one loop over the tuples of depth
  \<open>k\<close> with one shared lookup of the labels in the alphabet, writes for every \<open>r\<close> and on
  every output the same lines in the same order as the function written by hand for
  each of the depths 1, 2, 3 and 4.
\<close>

theorem hand_unrolled_functions_are_generic:
  "unit_swizzels r out = emit_generic 1 r out
   \<and> vec2_swizzels r out = emit_generic 2 r out
   \<and> vec3_swizzels r out = emit_generic 3 r out
   \<and> vec4_swizzels r out = emit_generic 4 r out"
  by (simp only: unit_swizzels_render vec2_swizzels_render vec3_swizzels_render
      vec4_swizzels_render emit_generic_render)

text \<open>
  Claim C10. The four functions are total: for every natural number \<open>n\<close> passed as the
  bound, also 0, 1 and more than 4, each of them returns, having written exactly
  \<open>n ^ k\<close> lines for its depth \<open>k\<close>. With the bound 0 nothing is written, and with the
  bound 1 exactly one line is.
\<close>

theorem line_count_for_every_bound:
  "length (unit_swizzels (int n) []) = n ^ 1
   \<and> length (vec2_swizzels (int n) []) = n ^ 2
   \<and> length (vec3_swizzels (int n) []) = n ^ 3
   \<and> length (vec4_swizzels (int n) []) = n ^ 4
   \<and> unit_swizzels 0 [] = [] \<and> vec2_swizzels 0 [] = []
   \<and> vec3_swizzels 0 [] = [] \<and> vec4_swizzels 0 [] = []
   \<and> unit_swizzels 1 [] = [''x, 0,''] \<and> vec2_swizzels 1 [] = [''xx, 0, 0,'']
   \<and> vec3_swizzels 1 [] = [''xxx, 0, 0, 0,''] \<and> vec4_swizzels 1 [] = [''xxxx, 0, 0, 0, 0,'']"
proof -
  have "length (unit_swizzels (int n) []) = n ^ 1"
    "length (vec2_swizzels (int n) []) = n ^ 2"
    "length (vec3_swizzels (int n) []) = n ^ 3"
    "length (vec4_swizzels (int n) []) = n ^ 4"
    by (simp_all only: unit_swizzels_render vec2_swizzels_render vec3_swizzels_render
        vec4_swizzels_render append_Nil length_map length_tuples nat_int)
  moreover have "unit_swizzels 0 [] = []" "vec2_swizzels 0 [] = []"
    "vec3_swizzels 0 [] = []" "vec4_swizzels 0 [] = []"
    by code_simp+
  moreover have "unit_swizzels 1 [] = [''x, 0,'']" "vec2_swizzels 1 [] = [''xx, 0, 0,'']"
    "vec3_swizzels 1 [] = [''xxx, 0, 0, 0,'']" "vec4_swizzels 1 [] = [''xxxx, 0, 0, 0, 0,'']"
    by code_simp+
  ultimately show ?thesis by blast
qed

end
